theory Spec2Isabelle
  imports
    Main
    "HOL-Library.Char_ord"
    "HOL-Library.List_Lexorder"
    "HOL-Library.AList"
    "HOL-Library.Word"
begin

section \<open>Elements, objects and errors\<close>

text \<open>
  Modelled from the spec: the declaration of \<open>storeElement\<close> and its \<open>Less\<close> method
  are not part of the file that holds the store. The spec gives an element a unique string
  \<open>Key\<close> and an opaque \<open>Object\<close>, ordered by raw byte comparison of the keys. The
  object is an interface value, so it can be nil (\<open>None\<close>), as in the pivot
  \<open>&storeElement{Key: key}\<close> that the store builds for lookups.
  Go strings are byte strings: \<open>string\<close> with the order of \<open>Char_ord\<close> and
  \<open>List_Lexorder\<close> is the bytewise lexicographic order.
\<close>

record 'o storeElement =
  Key :: string
  Object :: "'o option"

definition storeElement_Less :: "'o storeElement \<Rightarrow> 'o storeElement \<Rightarrow> bool" where
  "storeElement_Less a b = (Key a < Key b)"

text \<open>
  An \<open>interface{}\<close> argument of the store: the nil interface, a pointer to a
  \<open>storeElement\<close>, or a value of any other dynamic type.
\<close>

datatype 'o obj = ObjNil | ObjElem "'o storeElement" | ObjOther

datatype error =
    ErrNilObj
  | ErrNotStoreElement
  | ErrNoIndex string
  | ErrIndexFunc string
  | ErrIndexEntry string string error

text \<open>\<open>strings.HasPrefix(s, prefix)\<close>.\<close>

definition HasPrefix :: "string \<Rightarrow> string \<Rightarrow> bool" where
  "HasPrefix s p = (length p \<le> length s \<and> take (length p) s = p)"

section \<open>The ordered tree\<close>

text \<open>
  Modelled from the spec: \<open>github.com/google/btree\<close> is an imported library; the spec
  describes it as a balanced ordered map. A tree is represented by the ascending list of its
  items; the item type's \<open>Less\<close> method is passed as \<open>lt\<close>, and two items neither
  of which is less than the other are the same entry. An iterator callback returns whether
  the traversal goes on, and the variables it captures are threaded as a state.
\<close>

fun ReplaceOrInsert :: "('a \<Rightarrow> 'a \<Rightarrow> bool) \<Rightarrow> 'a \<Rightarrow> 'a list \<Rightarrow> 'a option \<times> 'a list" where
  "ReplaceOrInsert lt x [] = (None, [x])"
| "ReplaceOrInsert lt x (y # ys) =
     (if lt x y then (None, x # y # ys)
      else if lt y x then
        (case ReplaceOrInsert lt x ys of (old, ys') \<Rightarrow> (old, y # ys'))
      else (Some y, x # ys))"

fun Delete_item :: "('a \<Rightarrow> 'a \<Rightarrow> bool) \<Rightarrow> 'a \<Rightarrow> 'a list \<Rightarrow> 'a option \<times> 'a list" where
  "Delete_item lt x [] = (None, [])"
| "Delete_item lt x (y # ys) =
     (if lt x y then (None, y # ys)
      else if lt y x then
        (case Delete_item lt x ys of (old, ys') \<Rightarrow> (old, y # ys'))
      else (Some y, ys))"

fun Get_item :: "('a \<Rightarrow> 'a \<Rightarrow> bool) \<Rightarrow> 'a \<Rightarrow> 'a list \<Rightarrow> 'a option" where
  "Get_item lt x [] = None"
| "Get_item lt x (y # ys) =
     (if lt x y then None
      else if lt y x then Get_item lt x ys
      else Some y)"

fun iterate :: "'a list \<Rightarrow> ('a \<Rightarrow> 's \<Rightarrow> bool \<times> 's) \<Rightarrow> 's \<Rightarrow> 's" where
  "iterate [] f s = s"
| "iterate (x # xs) f s =
     (case f x s of (continue, s') \<Rightarrow> if continue then iterate xs f s' else s')"

definition Ascend :: "'a list \<Rightarrow> ('a \<Rightarrow> 's \<Rightarrow> bool \<times> 's) \<Rightarrow> 's \<Rightarrow> 's" where
  "Ascend t f s = iterate t f s"

definition AscendGreaterOrEqual ::
  "('a \<Rightarrow> 'a \<Rightarrow> bool) \<Rightarrow> 'a list \<Rightarrow> 'a \<Rightarrow> ('a \<Rightarrow> 's \<Rightarrow> bool \<times> 's) \<Rightarrow> 's \<Rightarrow> 's" where
  "AscendGreaterOrEqual lt t pivot f s = iterate (filter (\<lambda>x. \<not> lt x pivot) t) f s"

definition Len :: "'a list \<Rightarrow> nat" where
  "Len t = length t"

definition Min_item :: "'a list \<Rightarrow> 'a option" where
  "Min_item t = (case t of [] \<Rightarrow> None | x # _ \<Rightarrow> Some x)"

definition DeleteMin :: "'a list \<Rightarrow> 'a option \<times> 'a list" where
  "DeleteMin t = (case t of [] \<Rightarrow> (None, []) | x # xs \<Rightarrow> (Some x, xs))"

definition DescendLessOrEqual ::
  "('a \<Rightarrow> 'a \<Rightarrow> bool) \<Rightarrow> 'a list \<Rightarrow> 'a \<Rightarrow> ('a \<Rightarrow> 's \<Rightarrow> bool \<times> 's) \<Rightarrow> 's \<Rightarrow> 's" where
  "DescendLessOrEqual lt t pivot f s = iterate (rev (filter (\<lambda>x. \<not> lt pivot x) t)) f s"

text \<open>The invariant of a tree: its items are strictly ascending.\<close>

definition ordered :: "('a \<Rightarrow> 'a \<Rightarrow> bool) \<Rightarrow> 'a list \<Rightarrow> bool" where
  "ordered lt t = sorted_wrt lt t"

section \<open>The heap of trees\<close>

text \<open>
  A \<open>btreeStore\<close> holds a pointer to its tree, and \<open>Clone\<close> makes a second store, so
  the trees live in an explicit heap: \<open>cells\<close> gives the contents of each tree and
  \<open>next_ref\<close> is the first address not yet allocated. Modelled from the spec:
  \<open>btree.New\<close> allocates an empty tree, and \<open>BTree.Clone\<close> a new tree with the
  contents of the old one (copy-on-write makes the two independent).
\<close>

type_synonym ref = nat

record 'o heap =
  next_ref :: ref
  cells :: "ref \<Rightarrow> 'o storeElement list"

record btreeStore =
  tree :: ref

definition allocated :: "'o heap \<Rightarrow> btreeStore \<Rightarrow> bool" where
  "allocated h s = (tree s < next_ref h)"

definition tree_of :: "'o heap \<Rightarrow> btreeStore \<Rightarrow> 'o storeElement list" where
  "tree_of h s = cells h (tree s)"

definition set_tree :: "'o heap \<Rightarrow> btreeStore \<Rightarrow> 'o storeElement list \<Rightarrow> 'o heap" where
  "set_tree h s t = h\<lparr>cells := (cells h)(tree s := t)\<rparr>"

definition btree_New :: "'o heap \<Rightarrow> 'o heap \<times> ref" where
  "btree_New h = (h\<lparr>next_ref := Suc (next_ref h), cells := (cells h)(next_ref h := [])\<rparr>, next_ref h)"

definition btree_Clone :: "'o heap \<Rightarrow> ref \<Rightarrow> 'o heap \<times> ref" where
  "btree_Clone h r =
     (h\<lparr>next_ref := Suc (next_ref h), cells := (cells h)(next_ref h := cells h r)\<rparr>, next_ref h)"

section \<open>btreeStore\<close>

definition newBtreeStore :: "'o heap \<Rightarrow> int \<Rightarrow> 'o heap \<times> btreeStore" where
  "newBtreeStore h degree = (case btree_New h of (h', r) \<Rightarrow> (h', \<lparr>tree = r\<rparr>))"

definition addOrUpdateElem ::
  "'o heap \<Rightarrow> btreeStore \<Rightarrow> 'o storeElement \<Rightarrow> 'o storeElement option \<times> 'o heap" where
  "addOrUpdateElem h s storeElem =
     (case ReplaceOrInsert storeElement_Less storeElem (tree_of h s) of
        (oldObj, t') \<Rightarrow> (oldObj, set_tree h s t'))"

definition deleteElem ::
  "'o heap \<Rightarrow> btreeStore \<Rightarrow> 'o storeElement \<Rightarrow> 'o storeElement option \<times> 'o heap" where
  "deleteElem h s storeElem =
     (case Delete_item storeElement_Less storeElem (tree_of h s) of
        (oldObj, t') \<Rightarrow> (oldObj, set_tree h s t'))"

definition btreeStore_Add :: "'o heap \<Rightarrow> btreeStore \<Rightarrow> 'o obj \<Rightarrow> error option \<times> 'o heap" where
  "btreeStore_Add h s obj =
     (case obj of
        ObjNil \<Rightarrow> (Some ErrNilObj, h)
      | ObjOther \<Rightarrow> (Some ErrNotStoreElement, h)
      | ObjElem storeElem \<Rightarrow> (None, snd (addOrUpdateElem h s storeElem)))"

definition btreeStore_Update :: "'o heap \<Rightarrow> btreeStore \<Rightarrow> 'o obj \<Rightarrow> error option \<times> 'o heap" where
  "btreeStore_Update h s obj =
     (case obj of
        ObjNil \<Rightarrow> (Some ErrNilObj, h)
      | ObjOther \<Rightarrow> (Some ErrNotStoreElement, h)
      | ObjElem storeElem \<Rightarrow> (None, snd (addOrUpdateElem h s storeElem)))"

definition btreeStore_Delete :: "'o heap \<Rightarrow> btreeStore \<Rightarrow> 'o obj \<Rightarrow> error option \<times> 'o heap" where
  "btreeStore_Delete h s obj =
     (case obj of
        ObjNil \<Rightarrow> (Some ErrNilObj, h)
      | ObjOther \<Rightarrow> (Some ErrNotStoreElement, h)
      | ObjElem storeElem \<Rightarrow> (None, snd (deleteElem h s storeElem)))"

text \<open>
  The loop of \<open>Replace\<close> over \<open>objs\<close>: it returns at the first object that is not
  a \<open>*storeElement\<close> (the nil interface fails the type assertion too), keeping what it
  has inserted so far.
\<close>

fun Replace_loop :: "'o heap \<Rightarrow> btreeStore \<Rightarrow> 'o obj list \<Rightarrow> error option \<times> 'o heap" where
  "Replace_loop h s [] = (None, h)"
| "Replace_loop h s (obj # objs) =
     (case obj of
        ObjElem storeElem \<Rightarrow> Replace_loop (snd (addOrUpdateElem h s storeElem)) s objs
      | _ \<Rightarrow> (Some ErrNotStoreElement, h))"

definition btreeStore_Replace ::
  "'o heap \<Rightarrow> btreeStore \<Rightarrow> 'o obj list \<Rightarrow> string \<Rightarrow> error option \<times> 'o heap" where
  "btreeStore_Replace h s objs resourceVersion = Replace_loop (set_tree h s []) s objs"

definition btreeStore_List :: "'o heap \<Rightarrow> btreeStore \<Rightarrow> 'o storeElement list" where
  "btreeStore_List h s = Ascend (tree_of h s) (\<lambda>i items. (True, items @ [i])) []"

definition btreeStore_ListKeys :: "'o heap \<Rightarrow> btreeStore \<Rightarrow> string list" where
  "btreeStore_ListKeys h s = Ascend (tree_of h s) (\<lambda>i items. (True, items @ [Key i])) []"

definition btreeStore_Get ::
  "'o heap \<Rightarrow> btreeStore \<Rightarrow> 'o obj \<Rightarrow> 'o storeElement option \<times> bool \<times> error option" where
  "btreeStore_Get h s obj =
     (case obj of
        ObjElem storeElem \<Rightarrow>
          (case Get_item storeElement_Less storeElem (tree_of h s) of
             None \<Rightarrow> (None, False, None)
           | Some item \<Rightarrow> (Some item, True, None))
      | _ \<Rightarrow> (None, False, Some ErrNotStoreElement))"

definition getByKey ::
  "'o heap \<Rightarrow> btreeStore \<Rightarrow> string \<Rightarrow> 'o storeElement option \<times> bool \<times> error option" where
  "getByKey h s key =
     (let keyElement = \<lparr>Key = key, Object = None\<rparr>;
          item = Get_item storeElement_Less keyElement (tree_of h s)
      in (item, item \<noteq> None, None))"

definition btreeStore_GetByKey ::
  "'o heap \<Rightarrow> btreeStore \<Rightarrow> string \<Rightarrow> 'o storeElement option \<times> bool \<times> error option" where
  "btreeStore_GetByKey h s key = getByKey h s key"

definition ListPrefix_all ::
  "string \<Rightarrow> 'o storeElement \<Rightarrow> 'o storeElement list \<times> bool \<Rightarrow> bool \<times> 'o storeElement list \<times> bool" where
  "ListPrefix_all prefix i st =
     (case st of (result, hasMore) \<Rightarrow>
        if \<not> HasPrefix (Key i) prefix then (False, result, hasMore)
        else (True, result @ [i], hasMore))"

definition ListPrefix_page ::
  "string \<Rightarrow> int \<Rightarrow> 'o storeElement \<Rightarrow> 'o storeElement list \<times> bool \<Rightarrow> bool \<times> 'o storeElement list \<times> bool" where
  "ListPrefix_page prefix limit i st =
     (case st of (result, hasMore) \<Rightarrow>
        if \<not> HasPrefix (Key i) prefix then (False, result, hasMore)
        else if int (length result) < limit then (True, result @ [i], hasMore)
        else (False, result, True))"

definition btreeStore_ListPrefix ::
  "'o heap \<Rightarrow> btreeStore \<Rightarrow> string \<Rightarrow> string \<Rightarrow> int \<Rightarrow> 'o storeElement list \<times> bool" where
  "btreeStore_ListPrefix h s prefix continueKey limit =
     (if limit < 0 then ([], False)
      else
        let continueKey = (if continueKey = [] then prefix else continueKey);
            pivot = \<lparr>Key = continueKey, Object = None\<rparr>
        in if limit = 0 then
             AscendGreaterOrEqual storeElement_Less (tree_of h s) pivot
               (ListPrefix_all prefix) ([], False)
           else
             AscendGreaterOrEqual storeElement_Less (tree_of h s) pivot
               (ListPrefix_page prefix limit) ([], False))"

definition Count_step :: "string \<Rightarrow> 'o storeElement \<Rightarrow> int \<Rightarrow> bool \<times> int" where
  "Count_step prefix i count =
     (if \<not> HasPrefix (Key i) prefix then (False, count) else (True, count + 1))"

definition btreeStore_Count :: "'o heap \<Rightarrow> btreeStore \<Rightarrow> string \<Rightarrow> string \<Rightarrow> int" where
  "btreeStore_Count h s prefix continueKey =
     (let continueKey = (if continueKey = [] then prefix else continueKey);
          pivot = \<lparr>Key = continueKey, Object = None\<rparr>
      in AscendGreaterOrEqual storeElement_Less (tree_of h s) pivot (Count_step prefix) 0)"

definition btreeStore_Clone :: "'o heap \<Rightarrow> btreeStore \<Rightarrow> 'o heap \<times> btreeStore" where
  "btreeStore_Clone h s = (case btree_Clone h (tree s) of (h', r) \<Rightarrow> (h', \<lparr>tree = r\<rparr>))"

section \<open>indexer\<close>

text \<open>
  \<open>cache.IndexFunc\<close> and \<open>cache.Indexers\<close> are declared in another package: an
  index function returns the index values of an object or an error, and the indexers are
  a map from index names to index functions. Go maps are association lists here, read with
  \<open>map_of\<close>; the order in which Go ranges over a map is not specified, and the model
  ranges in list order.
\<close>

type_synonym 'o IndexFunc = "'o storeElement \<Rightarrow> error + string list"
type_synonym 'o Indexers = "(string \<times> 'o IndexFunc) list"
type_synonym 'o index_set = "(string \<times> 'o storeElement) list"
type_synonym 'o index = "(string \<times> 'o index_set) list"

record 'o indexer =
  indices :: "(string \<times> 'o index) list"
  indexers :: "'o Indexers"

definition newIndexer :: "'o Indexers \<Rightarrow> 'o indexer" where
  "newIndexer ixs = \<lparr>indices = [], indexers = ixs\<rparr>"

definition indexer_add :: "string \<Rightarrow> string \<Rightarrow> 'o storeElement \<Rightarrow> 'o index \<Rightarrow> 'o index" where
  "indexer_add key value obj index =
     (let elems = (case map_of index value of None \<Rightarrow> [] | Some elems \<Rightarrow> elems)
      in AList.update value (AList.update key obj elems) index)"

definition indexer_delete :: "string \<Rightarrow> string \<Rightarrow> 'o index \<Rightarrow> 'o index" where
  "indexer_delete key value index =
     (case map_of index value of
        None \<Rightarrow> index
      | Some elems \<Rightarrow>
          let elems' = AList.delete key elems
          in if length elems' = 0 then AList.delete value index
             else AList.update value elems' index)"

fun delete_values :: "string \<Rightarrow> string list \<Rightarrow> 'o index \<Rightarrow> 'o index" where
  "delete_values key [] index = index"
| "delete_values key (value # values) index =
     delete_values key values (indexer_delete key value index)"

fun add_values :: "string \<Rightarrow> string list \<Rightarrow> 'o storeElement \<Rightarrow> 'o index \<Rightarrow> 'o index" where
  "add_values key [] obj index = index"
| "add_values key (value # values) obj index =
     add_values key values obj (indexer_add key value obj index)"

text \<open>
  The body of the loop of \<open>updateElem\<close> for one index. A nil object has no index
  values, so with \<open>newObj\<close> nil nothing is added and the single-value shortcut is not
  taken.
\<close>

definition updateElem_index ::
  "string \<Rightarrow> 'o storeElement option \<Rightarrow> 'o storeElement option \<Rightarrow> string \<Rightarrow> 'o IndexFunc \<Rightarrow>
   (string \<times> 'o index) list \<Rightarrow> error option \<times> (string \<times> 'o index) list" where
  "updateElem_index key oldObj newObj name indexFunc ixs =
     (case (case oldObj of Some old \<Rightarrow> indexFunc old | None \<Rightarrow> Inr []) of
        Inl err \<Rightarrow> (Some (ErrIndexEntry key name err), ixs)
      | Inr oldIndexValues \<Rightarrow>
     (case (case newObj of Some new \<Rightarrow> indexFunc new | None \<Rightarrow> Inr []) of
        Inl err \<Rightarrow> (Some (ErrIndexEntry key name err), ixs)
      | Inr indexValues \<Rightarrow>
          let index = (case map_of ixs name of None \<Rightarrow> [] | Some index \<Rightarrow> index);
              index' =
                (case newObj of
                   None \<Rightarrow> delete_values key oldIndexValues index
                 | Some new \<Rightarrow>
                     if length indexValues = 1 \<and> length oldIndexValues = 1
                        \<and> hd indexValues = hd oldIndexValues
                     then indexer_add key (hd indexValues) new index
                     else add_values key indexValues new
                            (delete_values key oldIndexValues index))
          in (None, AList.update name index' ixs)))"

fun updateElem_loop ::
  "'o Indexers \<Rightarrow> string \<Rightarrow> 'o storeElement option \<Rightarrow> 'o storeElement option \<Rightarrow>
   (string \<times> 'o index) list \<Rightarrow> error option \<times> (string \<times> 'o index) list" where
  "updateElem_loop [] key oldObj newObj ixs = (None, ixs)"
| "updateElem_loop ((name, indexFunc) # rest) key oldObj newObj ixs =
     (case updateElem_index key oldObj newObj name indexFunc ixs of
        (Some err, ixs') \<Rightarrow> (Some err, ixs')
      | (None, ixs') \<Rightarrow> updateElem_loop rest key oldObj newObj ixs')"

definition indexer_updateElem ::
  "'o indexer \<Rightarrow> string \<Rightarrow> 'o storeElement option \<Rightarrow> 'o storeElement option \<Rightarrow>
   error option \<times> 'o indexer" where
  "indexer_updateElem i key oldObj newObj =
     (case updateElem_loop (indexers i) key oldObj newObj (indices i) of
        (err, ixs') \<Rightarrow> (err, i\<lparr>indices := ixs'\<rparr>))"

definition indexer_ByIndex :: "'o indexer \<Rightarrow> string \<Rightarrow> string \<Rightarrow> error + 'o storeElement list" where
  "indexer_ByIndex i indexName indexValue =
     (case map_of (indexers i) indexName of
        None \<Rightarrow> Inl (ErrNoIndex indexName)
      | Some indexFunc \<Rightarrow>
          let index = (case map_of (indices i) indexName of None \<Rightarrow> [] | Some index \<Rightarrow> index);
              elems = (case map_of index indexValue of None \<Rightarrow> [] | Some elems \<Rightarrow> elems)
          in Inr (map snd elems))"

fun indexer_Replace_loop :: "'o indexer \<Rightarrow> 'o obj list \<Rightarrow> error option \<times> 'o indexer" where
  "indexer_Replace_loop i [] = (None, i)"
| "indexer_Replace_loop i (obj # objs) =
     (case obj of
        ObjElem storeElem \<Rightarrow>
          (case indexer_updateElem i (Key storeElem) None (Some storeElem) of
             (Some err, i') \<Rightarrow> (Some err, i')
           | (None, i') \<Rightarrow> indexer_Replace_loop i' objs)
      | _ \<Rightarrow> (Some ErrNotStoreElement, i))"

definition indexer_Replace :: "'o indexer \<Rightarrow> 'o obj list \<Rightarrow> string \<Rightarrow> error option \<times> 'o indexer" where
  "indexer_Replace i objs resourceVersion = indexer_Replace_loop (i\<lparr>indices := []\<rparr>) objs"

section \<open>threadedStoreIndexer\<close>

text \<open>
  The facade holds its store and its indexer by value; the lock serialises the calls and
  is not modelled. A mutation returns the error, the heap and the facade.
\<close>

record 'o threadedStoreIndexer =
  store :: btreeStore
  indexer :: "'o indexer"

definition newThreadedBtreeStoreIndexer ::
  "'o heap \<Rightarrow> 'o Indexers \<Rightarrow> int \<Rightarrow> 'o heap \<times> 'o threadedStoreIndexer" where
  "newThreadedBtreeStoreIndexer h ixs degree =
     (case newBtreeStore h degree of (h', s) \<Rightarrow> (h', \<lparr>store = s, indexer = newIndexer ixs\<rparr>))"

definition addOrUpdate ::
  "'o heap \<Rightarrow> 'o threadedStoreIndexer \<Rightarrow> 'o obj \<Rightarrow>
   error option \<times> 'o heap \<times> 'o threadedStoreIndexer" where
  "addOrUpdate h si obj =
     (case obj of
        ObjNil \<Rightarrow> (Some ErrNilObj, h, si)
      | ObjOther \<Rightarrow> (Some ErrNotStoreElement, h, si)
      | ObjElem newElem \<Rightarrow>
          (case addOrUpdateElem h (store si) newElem of
             (oldElem, h') \<Rightarrow>
               (case indexer_updateElem (indexer si) (Key newElem) oldElem (Some newElem) of
                  (err, i') \<Rightarrow> (err, h', si\<lparr>indexer := i'\<rparr>))))"

definition threadedStoreIndexer_Add ::
  "'o heap \<Rightarrow> 'o threadedStoreIndexer \<Rightarrow> 'o obj \<Rightarrow>
   error option \<times> 'o heap \<times> 'o threadedStoreIndexer" where
  "threadedStoreIndexer_Add h si obj = addOrUpdate h si obj"

definition threadedStoreIndexer_Update ::
  "'o heap \<Rightarrow> 'o threadedStoreIndexer \<Rightarrow> 'o obj \<Rightarrow>
   error option \<times> 'o heap \<times> 'o threadedStoreIndexer" where
  "threadedStoreIndexer_Update h si obj = addOrUpdate h si obj"

definition threadedStoreIndexer_Delete ::
  "'o heap \<Rightarrow> 'o threadedStoreIndexer \<Rightarrow> 'o obj \<Rightarrow>
   error option \<times> 'o heap \<times> 'o threadedStoreIndexer" where
  "threadedStoreIndexer_Delete h si obj =
     (case obj of
        ObjElem storeElem \<Rightarrow>
          (case deleteElem h (store si) storeElem of
             (None, h') \<Rightarrow> (None, h', si)
           | (Some oldObj, h') \<Rightarrow>
               (case indexer_updateElem (indexer si) (Key storeElem) (Some oldObj) None of
                  (err, i') \<Rightarrow> (err, h', si\<lparr>indexer := i'\<rparr>)))
      | _ \<Rightarrow> (Some ErrNotStoreElement, h, si))"

definition threadedStoreIndexer_Replace ::
  "'o heap \<Rightarrow> 'o threadedStoreIndexer \<Rightarrow> 'o obj list \<Rightarrow> string \<Rightarrow>
   error option \<times> 'o heap \<times> 'o threadedStoreIndexer" where
  "threadedStoreIndexer_Replace h si objs resourceVersion =
     (case btreeStore_Replace h (store si) objs resourceVersion of
        (Some err, h') \<Rightarrow> (Some err, h', si)
      | (None, h') \<Rightarrow>
          (case indexer_Replace (indexer si) objs resourceVersion of
             (err, i') \<Rightarrow> (err, h', si\<lparr>indexer := i'\<rparr>)))"

definition threadedStoreIndexer_ByIndex ::
  "'o threadedStoreIndexer \<Rightarrow> string \<Rightarrow> string \<Rightarrow> error + 'o storeElement list" where
  "threadedStoreIndexer_ByIndex si indexName indexValue =
     indexer_ByIndex (indexer si) indexName indexValue"

definition threadedStoreIndexer_List :: "'o heap \<Rightarrow> 'o threadedStoreIndexer \<Rightarrow> 'o storeElement list" where
  "threadedStoreIndexer_List h si = btreeStore_List h (store si)"

definition threadedStoreIndexer_Clone ::
  "'o heap \<Rightarrow> 'o threadedStoreIndexer \<Rightarrow> 'o heap \<times> btreeStore" where
  "threadedStoreIndexer_Clone h si = btreeStore_Clone h (store si)"

section \<open>continueCache\<close>

text \<open>
  The \<open>orderedStore\<close> that \<open>Set\<close> receives is a store or the facade, and its
  \<open>Clone\<close> is the method of that receiver; a clone is always a \<open>*btreeStore\<close>.
  The tree of revisions is private to the cache and never cloned, so it is held by value;
  the cached stores are \<open>btreeStore\<close> pointers into the heap.
\<close>

datatype 'o orderedStore = Store btreeStore | Threaded "'o threadedStoreIndexer"

definition orderedStore_Clone :: "'o heap \<Rightarrow> 'o orderedStore \<Rightarrow> 'o heap \<times> btreeStore" where
  "orderedStore_Clone h os =
     (case os of
        Store s \<Rightarrow> btreeStore_Clone h s
      | Threaded si \<Rightarrow> threadedStoreIndexer_Clone h si)"

type_synonym uint64 = "64 word"

definition rev_Less :: "uint64 \<Rightarrow> uint64 \<Rightarrow> bool" where
  "rev_Less r1 r2 = (r1 < r2)"

record continueCache =
  revisions :: "uint64 list"
  cache :: "uint64 \<rightharpoonup> btreeStore"

definition newContinueCache :: continueCache where
  "newContinueCache = \<lparr>revisions = [], cache = Map.empty\<rparr>"

definition FindEqualOrLower_step :: "uint64 \<Rightarrow> uint64 \<times> bool \<Rightarrow> bool \<times> uint64 \<times> bool" where
  "FindEqualOrLower_step i st = (False, i, True)"

definition continueCache_FindEqualOrLower ::
  "continueCache \<Rightarrow> uint64 \<Rightarrow> btreeStore option \<times> uint64 \<times> bool" where
  "continueCache_FindEqualOrLower c rv =
     (case cache c rv of
        Some idx \<Rightarrow> (Some idx, rv, True)
      | None \<Rightarrow>
          (case DescendLessOrEqual rev_Less (revisions c) rv FindEqualOrLower_step (0, False) of
             (foundRV, ok) \<Rightarrow>
               if ok then (cache c foundRV, foundRV, cache c foundRV \<noteq> None)
               else (None, foundRV, ok)))"

definition continueCache_Set ::
  "'o heap \<Rightarrow> continueCache \<Rightarrow> uint64 \<Rightarrow> 'o orderedStore \<Rightarrow> 'o heap \<times> continueCache" where
  "continueCache_Set h c rv idx =
     (case cache c rv of
        Some _ \<Rightarrow> (h, c)
      | None \<Rightarrow>
          (case orderedStore_Clone h idx of
             (h', clone) \<Rightarrow>
               (h', c\<lparr>revisions := snd (ReplaceOrInsert rev_Less rv (revisions c)),
                      cache := (cache c)(rv \<mapsto> clone)\<rparr>)))"

function Cleanup_loop :: "continueCache \<Rightarrow> uint64 \<Rightarrow> continueCache" where
  "Cleanup_loop c rv =
     (if Len (revisions c) > 0 then
        (case Min_item (revisions c) of
           None \<Rightarrow> c
         | Some minRV \<Rightarrow>
             if rv < minRV then c
             else Cleanup_loop
                    (c\<lparr>cache := (cache c)(minRV := None),
                       revisions := snd (DeleteMin (revisions c))\<rparr>) rv)
      else c)"
  by pat_completeness auto
termination
  by (relation "measure (\<lambda>(c, rv). length (revisions c))")
     (auto simp: Len_def DeleteMin_def Min_item_def split: list.splits)

definition continueCache_Cleanup :: "continueCache \<Rightarrow> uint64 \<Rightarrow> continueCache" where
  "continueCache_Cleanup c rv = Cleanup_loop c rv"

section \<open>Prefix scans\<close>

lemma iterate_all:
  "iterate xs (ListPrefix_all p) (acc, m) = (acc @ takeWhile (\<lambda>e. HasPrefix (Key e) p) xs, m)"
  by (induction xs arbitrary: acc) (simp_all add: ListPrefix_all_def)

lemma iterate_page:
  "length acc \<le> nat L \<Longrightarrow>
   iterate xs (ListPrefix_page p L) (acc, m) =
     (acc @ take (nat L - length acc) (takeWhile (\<lambda>e. HasPrefix (Key e) p) xs),
      m \<or> nat L - length acc < length (takeWhile (\<lambda>e. HasPrefix (Key e) p) xs))"
proof (induction xs arbitrary: acc)
  case Nil
  then show ?case by simp
next
  case (Cons x xs)
  show ?case
  proof (cases "HasPrefix (Key x) p")
    case False
    then show ?thesis by (simp add: ListPrefix_page_def)
  next
    case True
    show ?thesis
    proof (cases "int (length acc) < L")
      case less: True
      then have le: "length (acc @ [x]) \<le> nat L" by simp
      have n: "nat L - length acc = Suc (nat L - length (acc @ [x]))" using less by simp
      show ?thesis using True less Cons.IH [OF le]
        by (simp add: ListPrefix_page_def n del: length_append)
    next
      case False
      with Cons.prems have "nat L - length acc = 0" by simp
      with True False show ?thesis by (simp add: ListPrefix_page_def)
    qed
  qed
qed

lemma iterate_count:
  "iterate xs (Count_step p) n = n + int (length (takeWhile (\<lambda>e. HasPrefix (Key e) p) xs))"
  by (induction xs arbitrary: n) (simp_all add: Count_step_def)

lemma HasPrefix_le: "HasPrefix x p \<Longrightarrow> p \<le> x"
proof (induction p arbitrary: x)
  case Nil then show ?case by simp
next
  case (Cons a p)
  then show ?case by (cases x) (auto simp: HasPrefix_def)
qed

lemma HasPrefix_convex: "p \<le> x \<Longrightarrow> x \<le> y \<Longrightarrow> HasPrefix y p \<Longrightarrow> HasPrefix x p"
proof (induction p arbitrary: x y)
  case Nil then show ?case by (simp add: HasPrefix_def)
next
  case (Cons a p)
  then show ?case
    by (cases x; cases y) (auto simp: HasPrefix_def)
qed

lemma zero_char_least: "CHR 0x00 \<le> (a::char)"
  by (simp add: less_eq_char_def)

lemma succ_key: "(k @ [CHR 0x00] \<le> x) = (k < x)"
proof (induction k arbitrary: x)
  case Nil then show ?case
    using zero_char_least by (cases x) (auto simp: order.strict_iff_order)
next
  case (Cons a k)
  then show ?case by (cases x) auto
qed


text \<open>
  The scan that the specification of \<open>ListPrefix\<close> describes: it starts at
  \<open>continueKey\<close>, or at \<open>prefix\<close> when \<open>continueKey\<close> is empty, goes up
  the keys and stops at the first key that does not have \<open>prefix\<close> as a prefix.
\<close>

definition scan_start :: "string \<Rightarrow> string \<Rightarrow> string" where
  "scan_start prefix continueKey = (if continueKey = [] then prefix else continueKey)"

definition prefix_scan :: "'o storeElement list \<Rightarrow> string \<Rightarrow> string \<Rightarrow> 'o storeElement list" where
  "prefix_scan t prefix continueKey =
     takeWhile (\<lambda>e. HasPrefix (Key e) prefix)
       (filter (\<lambda>e. scan_start prefix continueKey \<le> Key e) t)"

lemma ge_filter:
  "filter (\<lambda>x. \<not> storeElement_Less x \<lparr>Key = k, Object = None\<rparr>) t = filter (\<lambda>e. k \<le> Key e) t"
  by (simp add: storeElement_Less_def not_less)

lemma ListPrefix_scan:
  "0 \<le> L \<Longrightarrow> btreeStore_ListPrefix h s p c L =
     (if L = 0 then prefix_scan (tree_of h s) p c else take (nat L) (prefix_scan (tree_of h s) p c),
      0 < L \<and> nat L < length (prefix_scan (tree_of h s) p c))"
  by (simp add: btreeStore_ListPrefix_def AscendGreaterOrEqual_def ge_filter iterate_all
      iterate_page prefix_scan_def scan_start_def Let_def)

lemma Count_scan:
  "btreeStore_Count h s p c = int (length (prefix_scan (tree_of h s) p c))"
  by (simp add: btreeStore_Count_def AscendGreaterOrEqual_def ge_filter iterate_count
      prefix_scan_def scan_start_def Let_def)

lemma ordered_keys: "ordered storeElement_Less t = sorted_wrt (\<lambda>a b. Key a < Key b) t"
  by (simp add: ordered_def storeElement_Less_def [abs_def])

lemma takeWhile_prefix_sorted:
  "sorted_wrt (\<lambda>a b. Key a < Key b) u \<Longrightarrow> \<forall>e\<in>set u. p \<le> Key e \<Longrightarrow>
   takeWhile (\<lambda>e. HasPrefix (Key e) p) u = filter (\<lambda>e. HasPrefix (Key e) p) u"
proof (induction u)
  case Nil then show ?case by simp
next
  case (Cons x u)
  show ?case
  proof (cases "HasPrefix (Key x) p")
    case True
    with Cons show ?thesis by simp
  next
    case False
    have "\<not> HasPrefix (Key y) p" if "y \<in> set u" for y
    proof
      assume "HasPrefix (Key y) p"
      moreover have "p \<le> Key x" "Key x \<le> Key y" using Cons.prems that by auto
      ultimately have "HasPrefix (Key x) p" by (rule HasPrefix_convex [rotated 2])
      with False show False by simp
    qed
    then have "filter (\<lambda>e. HasPrefix (Key e) p) u = []" by (simp add: filter_empty_conv)
    with False show ?thesis by simp
  qed
qed

lemma prefix_scan_filter:
  assumes "ordered storeElement_Less t" and "p \<le> scan_start p c"
  shows "prefix_scan t p c = filter (\<lambda>e. HasPrefix (Key e) p \<and> scan_start p c \<le> Key e) t"
proof -
  let ?u = "filter (\<lambda>e. scan_start p c \<le> Key e) t"
  have "sorted_wrt (\<lambda>a b. Key a < Key b) ?u"
    using assms(1) by (simp add: ordered_keys sorted_wrt_filter)
  moreover have "\<forall>e\<in>set ?u. p \<le> Key e" using assms(2) by auto
  ultimately have "takeWhile (\<lambda>e. HasPrefix (Key e) p) ?u = filter (\<lambda>e. HasPrefix (Key e) p) ?u"
    by (rule takeWhile_prefix_sorted)
  then show ?thesis by (simp add: prefix_scan_def conj_commute)
qed

lemma prefix_scan_empty_key:
  assumes "ordered storeElement_Less t"
  shows "prefix_scan t p [] = filter (\<lambda>e. HasPrefix (Key e) p) t"
proof -
  have "prefix_scan t p [] = filter (\<lambda>e. HasPrefix (Key e) p \<and> p \<le> Key e) t"
    using prefix_scan_filter [OF assms, of p "[]"] by (simp add: scan_start_def)
  also have "\<dots> = filter (\<lambda>e. HasPrefix (Key e) p) t"
    by (rule filter_cong) (auto dest: HasPrefix_le)
  finally show ?thesis .
qed


text \<open>The store of the specification's scenario, with the three pods as its tree.\<close>

definition pods_tree :: "nat storeElement list" where
  "pods_tree =
     [\<lparr>Key = ''/pods/ns1/a'', Object = Some 1\<rparr>,
      \<lparr>Key = ''/pods/ns1/b'', Object = Some 2\<rparr>,
      \<lparr>Key = ''/pods/ns2/a'', Object = Some 3\<rparr>]"

definition pods_heap :: "nat heap" where
  "pods_heap = \<lparr>next_ref = 1, cells = (\<lambda>_. [])(0 := pods_tree)\<rparr>"

definition pods_store :: btreeStore where
  "pods_store = \<lparr>tree = 0\<rparr>"

lemma ordered_sorted_keys:
  "ordered storeElement_Less t \<Longrightarrow> sorted_wrt (\<lambda>a b. Key a < Key b) t"
  by (simp add: ordered_keys)

lemma sorted_keys_distinct: "sorted_wrt (\<lambda>a b. Key a < Key b) t \<Longrightarrow> distinct t"
  by (induction t) auto

lemma sorted_takeWhile: "sorted_wrt R xs \<Longrightarrow> sorted_wrt R (takeWhile P xs)"
  by (induction xs) (auto dest: set_takeWhileD)

lemma prefix_scan_sorted:
  "ordered storeElement_Less t \<Longrightarrow> sorted_wrt (\<lambda>a b. Key a < Key b) (prefix_scan t p c)"
  by (simp add: prefix_scan_def ordered_keys sorted_takeWhile sorted_wrt_filter)

lemma prefix_scan_HasPrefix: "e \<in> set (prefix_scan t p c) \<Longrightarrow> HasPrefix (Key e) p"
  unfolding prefix_scan_def by (auto dest: set_takeWhileD)

lemma more_beyond_page:
  assumes "distinct xs"
  shows "(n < length xs) = (\<exists>e\<in>set xs. e \<notin> set (take n xs))"
proof
  assume "n < length xs"
  then have "xs ! n \<in> set xs" by simp
  moreover have "xs ! n \<notin> set (take n xs)"
  proof
    assume "xs ! n \<in> set (take n xs)"
    then obtain i where "i < n" "i < length xs" "xs ! i = xs ! n"
      by (auto simp: in_set_conv_nth)
    with assms \<open>n < length xs\<close> show False by (auto simp: nth_eq_iff_index_eq)
  qed
  ultimately show "\<exists>e\<in>set xs. e \<notin> set (take n xs)" by blast
next
  assume "\<exists>e\<in>set xs. e \<notin> set (take n xs)"
  then show "n < length xs" by (cases "n < length xs") auto
qed

text \<open>
  C2. On a store whose tree is ordered and for a limit \<open>L \<ge> 0\<close>, \<open>ListPrefix\<close>
  returns the prefix scan from \<open>continueKey\<close> (from \<open>prefix\<close> when it is
  empty), cut to its first \<open>L\<close> elements when \<open>L > 0\<close> and whole when
  \<open>L = 0\<close>. Every returned key has the prefix, the keys ascend, a page has at most
  \<open>L\<close> elements, and \<open>hasMore\<close> holds exactly when an element of the scan is
  not in the page. When the scan starts at or after the prefix, its elements are exactly
  the elements of the store that have the prefix and lie at or after the start; so
  \<open>ListPrefix(p, "", 0)\<close> is exactly the elements with prefix \<open>p\<close>, ascending,
  with \<open>hasMore = false\<close>.
\<close>

theorem ListPrefix_functional:
  assumes "ordered storeElement_Less (tree_of h s)" and "0 \<le> L"
  shows "btreeStore_ListPrefix h s p c L =
           (if L = 0 then prefix_scan (tree_of h s) p c
            else take (nat L) (prefix_scan (tree_of h s) p c),
            0 < L \<and> nat L < length (prefix_scan (tree_of h s) p c))
       \<and> (\<forall>e\<in>set (fst (btreeStore_ListPrefix h s p c L)). HasPrefix (Key e) p)
       \<and> sorted_wrt (\<lambda>a b. Key a < Key b) (fst (btreeStore_ListPrefix h s p c L))
       \<and> (0 < L \<longrightarrow> int (length (fst (btreeStore_ListPrefix h s p c L))) \<le> L)
       \<and> (snd (btreeStore_ListPrefix h s p c L) =
            (\<exists>e\<in>set (prefix_scan (tree_of h s) p c).
               e \<notin> set (fst (btreeStore_ListPrefix h s p c L))))
       \<and> (p \<le> scan_start p c \<longrightarrow>
            prefix_scan (tree_of h s) p c =
              filter (\<lambda>e. HasPrefix (Key e) p \<and> scan_start p c \<le> Key e) (tree_of h s))
       \<and> btreeStore_ListPrefix h s p [] 0 =
            (filter (\<lambda>e. HasPrefix (Key e) p) (tree_of h s), False)"
proof -
  let ?sc = "prefix_scan (tree_of h s) p c"
  have eq: "btreeStore_ListPrefix h s p c L =
      (if L = 0 then ?sc else take (nat L) ?sc, 0 < L \<and> nat L < length ?sc)"
    using assms(2) by (rule ListPrefix_scan)
  have srt: "sorted_wrt (\<lambda>a b. Key a < Key b) ?sc"
    using assms(1) by (rule prefix_scan_sorted)
  have pre: "\<forall>e\<in>set (fst (btreeStore_ListPrefix h s p c L)). HasPrefix (Key e) p"
    by (auto simp: eq dest: in_set_takeD prefix_scan_HasPrefix)
  have asc: "sorted_wrt (\<lambda>a b. Key a < Key b) (fst (btreeStore_ListPrefix h s p c L))"
    using srt by (simp add: eq sorted_wrt_take)
  have len: "0 < L \<longrightarrow> int (length (fst (btreeStore_ListPrefix h s p c L))) \<le> L"
    by (auto simp: eq)
  have more: "snd (btreeStore_ListPrefix h s p c L) =
      (\<exists>e\<in>set ?sc. e \<notin> set (fst (btreeStore_ListPrefix h s p c L)))"
  proof (cases "L = 0")
    case True then show ?thesis unfolding eq by simp
  next
    case False
    with assms(2) have "0 < L" by simp
    then show ?thesis
      using more_beyond_page [OF sorted_keys_distinct [OF srt], of "nat L"] by (simp add: eq)
  qed
  have flt: "p \<le> scan_start p c \<longrightarrow>
      ?sc = filter (\<lambda>e. HasPrefix (Key e) p \<and> scan_start p c \<le> Key e) (tree_of h s)"
    using prefix_scan_filter [OF assms(1)] by blast
  have full: "btreeStore_ListPrefix h s p [] 0 =
      (filter (\<lambda>e. HasPrefix (Key e) p) (tree_of h s), False)"
    using ListPrefix_scan [of 0 h s p "[]"] prefix_scan_empty_key [OF assms(1), of p] by simp
  from eq pre asc len more flt full show ?thesis by blast
qed

lemma pods_ordered: "ordered storeElement_Less (tree_of pods_heap pods_store)"
  by (simp add: ordered_def storeElement_Less_def tree_of_def pods_heap_def pods_store_def
      pods_tree_def)

lemma pods_scan:
  "prefix_scan (tree_of pods_heap pods_store) ''/pods/ns1/'' [] =
     [\<lparr>Key = ''/pods/ns1/a'', Object = Some 1\<rparr>, \<lparr>Key = ''/pods/ns1/b'', Object = Some 2\<rparr>]"
  by (simp add: prefix_scan_def scan_start_def tree_of_def pods_heap_def
      pods_store_def pods_tree_def HasPrefix_def)

theorem ListPrefix_functional_witness:
  "ordered storeElement_Less (tree_of pods_heap pods_store) \<and> (0::int) \<le> 1
   \<and> btreeStore_ListPrefix pods_heap pods_store ''/pods/ns1/'' [] 1 =
       ([\<lparr>Key = ''/pods/ns1/a'', Object = Some 1\<rparr>], True)"
proof -
  have l: "(0::int) \<le> 1" by simp
  have "btreeStore_ListPrefix pods_heap pods_store ''/pods/ns1/'' [] 1 =
      (if (1::int) = 0 then prefix_scan (tree_of pods_heap pods_store) ''/pods/ns1/'' []
       else take (nat 1) (prefix_scan (tree_of pods_heap pods_store) ''/pods/ns1/'' []),
       (0::int) < 1 \<and> nat 1 < length (prefix_scan (tree_of pods_heap pods_store) ''/pods/ns1/'' []))"
    using ListPrefix_functional [OF pods_ordered l, of "''/pods/ns1/''" "[]"] by blast
  then have "btreeStore_ListPrefix pods_heap pods_store ''/pods/ns1/'' [] 1 =
      ([\<lparr>Key = ''/pods/ns1/a'', Object = Some 1\<rparr>], True)"
    unfolding pods_scan by simp
  with pods_ordered show ?thesis by simp
qed

section \<open>Negative limits and the prefix itself as a key\<close>

text \<open>
  C9, as amended. \<open>ListPrefix\<close> with a negative limit returns no elements and
  \<open>hasMore = false\<close>, whatever the store, the prefix and the continue key are.
  \<open>Count\<close> takes no limit: it always counts the whole prefix scan, that is, it returns
  the number of elements that \<open>ListPrefix\<close> returns with limit \<open>0\<close>.
\<close>

theorem negative_limit:
  "(L < 0 \<longrightarrow> btreeStore_ListPrefix h s p c L = ([], False))
   \<and> btreeStore_Count h s p c = int (length (fst (btreeStore_ListPrefix h s p c 0)))"
  by (simp add: Count_scan ListPrefix_scan) (simp add: btreeStore_ListPrefix_def)

theorem negative_limit_witness:
  "(-1::int) < 0 \<and> btreeStore_ListPrefix pods_heap pods_store ''/pods/ns1/'' [] (-1) = ([], False)
   \<and> btreeStore_Count pods_heap pods_store ''/pods/ns1/'' [] = 2"
proof -
  have "btreeStore_Count pods_heap pods_store ''/pods/ns1/'' [] =
      int (length (fst (btreeStore_ListPrefix pods_heap pods_store ''/pods/ns1/'' [] 0)))"
    using negative_limit [of "-1" pods_heap pods_store "''/pods/ns1/''" "[]"] by blast
  moreover have "btreeStore_ListPrefix pods_heap pods_store ''/pods/ns1/'' [] (-1) = ([], False)"
    using negative_limit [of "-1" pods_heap pods_store "''/pods/ns1/''" "[]"] by simp
  ultimately show ?thesis by (simp add: ListPrefix_scan pods_scan)
qed

text \<open>
  The claim as stated fails for \<open>Count\<close>: with the arguments for which \<open>ListPrefix\<close>
  under limit \<open>-1\<close> returns nothing, \<open>Count\<close> still counts the two pods of
  namespace \<open>ns1\<close>.
\<close>

theorem negative_limit_counterexample:
  "\<not> (btreeStore_ListPrefix pods_heap pods_store ''/pods/ns1/'' [] (-1) = ([], False)
      \<and> btreeStore_Count pods_heap pods_store ''/pods/ns1/'' [] = 0)"
  by (simp add: Count_scan pods_scan)

lemma filter_from_member:
  "sorted_wrt (\<lambda>a b. Key a < Key b) t \<Longrightarrow> e \<in> set t \<Longrightarrow>
   filter (\<lambda>x. Key e \<le> Key x) t = e # filter (\<lambda>x. Key e < Key x) t"
proof (induction t)
  case Nil then show ?case by simp
next
  case (Cons y t)
  show ?case
  proof (cases "y = e")
    case True
    have "\<forall>x\<in>set t. Key e < Key x" using Cons.prems(1) True by simp
    then have "filter (\<lambda>x. Key e \<le> Key x) t = t" "filter (\<lambda>x. Key e < Key x) t = t"
      by (auto simp: filter_id_conv less_imp_le)
    with True show ?thesis by simp
  next
    case False
    with Cons.prems have e: "e \<in> set t" and "Key y < Key e" by auto
    then have "\<not> Key e \<le> Key y" "\<not> Key e < Key y" by auto
    with Cons.IH Cons.prems(1) e show ?thesis by simp
  qed
qed

lemma prefix_scan_at_key:
  assumes "ordered storeElement_Less t" and "e \<in> set t"
  shows "prefix_scan t (Key e) [] =
     e # takeWhile (\<lambda>x. HasPrefix (Key x) (Key e)) (filter (\<lambda>x. Key e < Key x) t)"
  using filter_from_member [OF ordered_sorted_keys [OF assms(1)] assms(2)]
  by (simp add: prefix_scan_def scan_start_def HasPrefix_def)

text \<open>
  C10. When the store holds an element whose key is the prefix itself, \<open>ListPrefix\<close>
  with an empty continue key and any limit \<open>L \<ge> 0\<close> returns it as its first result
  and \<open>Count\<close> counts it: an empty continue key gives the same results as the prefix
  as continue key, and the count is the number of elements with the prefix, of which it is
  one.
\<close>

theorem prefix_key_included:
  assumes "ordered storeElement_Less (tree_of h s)"
    and "e \<in> set (tree_of h s)" and "Key e = p" and "0 \<le> L"
  shows "fst (btreeStore_ListPrefix h s p [] L) \<noteq> []
       \<and> hd (fst (btreeStore_ListPrefix h s p [] L)) = e
       \<and> btreeStore_ListPrefix h s p [] L = btreeStore_ListPrefix h s p p L
       \<and> btreeStore_Count h s p [] = btreeStore_Count h s p p
       \<and> btreeStore_Count h s p [] =
           int (length (filter (\<lambda>x. HasPrefix (Key x) p) (tree_of h s)))
       \<and> e \<in> set (filter (\<lambda>x. HasPrefix (Key x) p) (tree_of h s))
       \<and> 0 < btreeStore_Count h s p []"
proof -
  let ?t = "tree_of h s"
  obtain r where sc: "prefix_scan ?t p [] = e # r"
    using prefix_scan_at_key [OF assms(1,2)] assms(3) by simp
  have same: "prefix_scan ?t p p = prefix_scan ?t p []"
    by (simp add: prefix_scan_def scan_start_def)
  have lp: "btreeStore_ListPrefix h s p [] L =
      (if L = 0 then e # r else take (nat L) (e # r), 0 < L \<and> nat L < length (e # r))"
    using ListPrefix_scan [OF assms(4), of h s p "[]"] by (simp only: sc)
  have "fst (btreeStore_ListPrefix h s p [] L) \<noteq> []"
    unfolding lp using assms(4) by (auto simp: take_Cons')
  moreover have "hd (fst (btreeStore_ListPrefix h s p [] L)) = e"
    unfolding lp using assms(4) by (auto simp: take_Cons')
  moreover have "btreeStore_ListPrefix h s p [] L = btreeStore_ListPrefix h s p p L"
    by (simp add: ListPrefix_scan [OF assms(4)] same)
  moreover have "btreeStore_Count h s p [] = btreeStore_Count h s p p"
    by (simp add: Count_scan same)
  moreover have "btreeStore_Count h s p [] =
      int (length (filter (\<lambda>x. HasPrefix (Key x) p) ?t))"
    by (simp add: Count_scan prefix_scan_empty_key [OF assms(1)])
  moreover have "e \<in> set (filter (\<lambda>x. HasPrefix (Key x) p) ?t)"
    using assms(2,3) by (simp add: HasPrefix_def)
  moreover have "0 < btreeStore_Count h s p []"
    by (simp add: Count_scan sc)
  ultimately show ?thesis by blast
qed

definition ns1_tree :: "nat storeElement list" where
  "ns1_tree =
     [\<lparr>Key = ''/pods/ns1'', Object = Some 0\<rparr>,
      \<lparr>Key = ''/pods/ns1/a'', Object = Some 1\<rparr>,
      \<lparr>Key = ''/pods/ns2'', Object = Some 2\<rparr>]"

definition ns1_heap :: "nat heap" where
  "ns1_heap = \<lparr>next_ref = 1, cells = (\<lambda>_. [])(0 := ns1_tree)\<rparr>"

theorem prefix_key_included_witness:
  "ordered storeElement_Less (tree_of ns1_heap pods_store)
   \<and> \<lparr>Key = ''/pods/ns1'', Object = Some (0::nat)\<rparr> \<in> set (tree_of ns1_heap pods_store)
   \<and> Key \<lparr>Key = ''/pods/ns1'', Object = Some (0::nat)\<rparr> = ''/pods/ns1''
   \<and> (0::int) \<le> 1
   \<and> hd (fst (btreeStore_ListPrefix ns1_heap pods_store ''/pods/ns1'' [] 1)) =
       \<lparr>Key = ''/pods/ns1'', Object = Some 0\<rparr>
   \<and> 0 < btreeStore_Count ns1_heap pods_store ''/pods/ns1'' []"
proof -
  have o: "ordered storeElement_Less (tree_of ns1_heap pods_store)"
    by (simp add: ordered_def storeElement_Less_def tree_of_def ns1_heap_def pods_store_def
        ns1_tree_def)
  have m: "\<lparr>Key = ''/pods/ns1'', Object = Some (0::nat)\<rparr> \<in> set (tree_of ns1_heap pods_store)"
    by (simp add: tree_of_def ns1_heap_def pods_store_def ns1_tree_def)
  have k: "Key \<lparr>Key = ''/pods/ns1'', Object = Some (0::nat)\<rparr> = ''/pods/ns1''" by simp
  have l: "(0::int) \<le> 1" by simp
  from prefix_key_included [OF o m k l] o m k l show ?thesis by blast
qed

section \<open>Pagination\<close>

lemma ListPrefix_more:
  assumes "btreeStore_ListPrefix h s p c L = (page, True)"
  shows "0 < L \<and> nat L < length (prefix_scan (tree_of h s) p c)
       \<and> page = take (nat L) (prefix_scan (tree_of h s) p c)"
proof (cases "L < 0")
  case True
  with assms show ?thesis by (simp add: btreeStore_ListPrefix_def)
next
  case False
  then have "0 \<le> L" by simp
  from ListPrefix_scan [OF this, of h s p c] assms show ?thesis
    by (auto split: if_splits)
qed

lemma last_page_in_scan:
  assumes "0 < n" and "n < length sc"
  shows "last (take n sc) = sc ! (n - 1)"
proof -
  have "take n sc \<noteq> []" using assms by auto
  then have "last (take n sc) = take n sc ! (length (take n sc) - 1)" by (rule last_conv_nth)
  with assms show ?thesis by simp
qed

lemma filter_after_key:
  assumes "start \<le> k"
  shows "filter (\<lambda>e. k @ [CHR 0x00] \<le> Key e) t =
         filter (\<lambda>e. k < Key e) (filter (\<lambda>e. start \<le> Key e) t)"
proof -
  have "filter (\<lambda>e. k @ [CHR 0x00] \<le> Key e) t =
        filter (\<lambda>e. start \<le> Key e \<and> k < Key e) t"
    by (rule filter_cong) (use assms in \<open>auto simp: succ_key\<close>)
  then show ?thesis by simp
qed

lemma paginate_decreases:
  assumes "btreeStore_ListPrefix h s p c L = (page, True)"
  shows "length (filter (\<lambda>e. scan_start p (Key (last page) @ [CHR 0x00]) \<le> Key e) (tree_of h s))
       < length (filter (\<lambda>e. scan_start p c \<le> Key e) (tree_of h s))"
proof -
  let ?u = "filter (\<lambda>e. scan_start p c \<le> Key e) (tree_of h s)"
  let ?sc = "prefix_scan (tree_of h s) p c"
  from ListPrefix_more [OF assms]
  have L: "0 < nat L" "nat L < length ?sc" and page: "page = take (nat L) ?sc" by auto
  have "last page = ?sc ! (nat L - 1)"
    unfolding page using L by (rule last_page_in_scan)
  moreover have "?sc ! (nat L - 1) \<in> set ?sc" using L by simp
  ultimately have mem: "last page \<in> set ?u"
    by (auto simp: prefix_scan_def dest: set_takeWhileD)
  then have le: "scan_start p c \<le> Key (last page)" by simp
  have "length (filter (\<lambda>e. Key (last page) < Key e) ?u) < length ?u"
    using mem by (rule length_filter_less) simp
  then show ?thesis
    using filter_after_key [OF le, of "tree_of h s"] by (simp add: scan_start_def)
qed

text \<open>
  Modelled from the spec: the pagination loop belongs to the caller of the store. It calls
  \<open>ListPrefix\<close> with an empty continue key first, then with the last returned key
  followed by a null byte, until \<open>hasMore\<close> is false; the result is the list of the
  pages. A page with \<open>hasMore\<close> is never empty, so its last key exists.
\<close>

function paginate ::
  "'o heap \<Rightarrow> btreeStore \<Rightarrow> string \<Rightarrow> string \<Rightarrow> int \<Rightarrow> 'o storeElement list list" where
  "paginate h s prefix continueKey limit =
     (case btreeStore_ListPrefix h s prefix continueKey limit of
        (page, hasMore) \<Rightarrow>
          if hasMore then page # paginate h s prefix (Key (last page) @ [CHR 0x00]) limit
          else [page])"
  by pat_completeness auto
termination
proof (relation "measure (\<lambda>(h, s, p, c, L).
    length (filter (\<lambda>e. scan_start p c \<le> Key e) (tree_of h s)))", goal_cases)
  case 1
  show ?case by simp
next
  case (2 h s prefix continueKey limit page hasMore)
  then have "btreeStore_ListPrefix h s prefix continueKey limit = (page, True)" by simp
  from paginate_decreases [OF this] show ?case by simp
qed

declare paginate.simps [simp del]

lemma takeWhile_drop:
  "n \<le> length (takeWhile P xs) \<Longrightarrow> takeWhile P (drop n xs) = drop n (takeWhile P xs)"
proof (induction xs arbitrary: n)
  case Nil then show ?case by simp
next
  case (Cons x xs)
  then show ?case by (cases n) (auto split: if_splits)
qed

lemma filter_above_nth:
  "sorted_wrt (\<lambda>a b. Key a < Key b) u \<Longrightarrow> i < length u \<Longrightarrow>
   filter (\<lambda>x. Key (u ! i) < Key x) u = drop (Suc i) u"
proof (induction u arbitrary: i)
  case Nil then show ?case by simp
next
  case (Cons y u)
  show ?case
  proof (cases i)
    case 0
    have "\<forall>x\<in>set u. Key y < Key x" using Cons.prems(1) by simp
    then have "filter (\<lambda>x. Key y < Key x) u = u" by (simp add: filter_id_conv)
    with 0 show ?thesis by simp
  next
    case (Suc j)
    with Cons.prems have j: "j < length u" and "Key y < Key (u ! j)" by auto
    then have "\<not> Key (u ! j) < Key y" by auto
    with Cons.IH [OF _ j] Cons.prems(1) Suc show ?thesis by simp
  qed
qed

lemma scan_continue:
  assumes "ordered storeElement_Less t" and "0 < n" and "n < length (prefix_scan t p c)"
  shows "prefix_scan t p (Key (last (take n (prefix_scan t p c))) @ [CHR 0x00]) =
         drop n (prefix_scan t p c)"
proof -
  let ?P = "\<lambda>e::'a storeElement. HasPrefix (Key e) p"
  let ?u = "filter (\<lambda>e. scan_start p c \<le> Key e) t"
  let ?sc = "prefix_scan t p c"
  have sc: "?sc = takeWhile ?P ?u" by (simp add: prefix_scan_def)
  have srt: "sorted_wrt (\<lambda>a b. Key a < Key b) ?u"
    using assms(1) by (simp add: ordered_keys sorted_wrt_filter)
  have len: "length ?sc \<le> length ?u" unfolding sc by (rule length_takeWhile_le)
  have i: "n - 1 < length ?u" using assms(3) len by simp
  have "last (take n ?sc) = ?sc ! (n - 1)" using assms(2,3) by (rule last_page_in_scan)
  also have "\<dots> = ?u ! (n - 1)" unfolding sc using assms(2,3) sc
    by (intro takeWhile_nth) simp
  finally have lst: "last (take n ?sc) = ?u ! (n - 1)" .
  have "?u ! (n - 1) \<in> set ?u" using i by (rule nth_mem)
  moreover have "\<forall>e\<in>set ?u. scan_start p c \<le> Key e" by simp
  ultimately have le: "scan_start p c \<le> Key (?u ! (n - 1))" by blast
  have "filter (\<lambda>e. Key (?u ! (n - 1)) @ [CHR 0x00] \<le> Key e) t =
        filter (\<lambda>e. Key (?u ! (n - 1)) < Key e) ?u"
    using le by (rule filter_after_key)
  also have "\<dots> = drop (Suc (n - 1)) ?u" using srt i by (rule filter_above_nth)
  also have "Suc (n - 1) = n" using assms(2) by simp
  finally have "prefix_scan t p (Key (?u ! (n - 1)) @ [CHR 0x00]) = takeWhile ?P (drop n ?u)"
    by (simp add: prefix_scan_def scan_start_def)
  also have "\<dots> = drop n (takeWhile ?P ?u)"
    using assms(3) sc by (intro takeWhile_drop) simp
  finally show ?thesis unfolding lst by (simp add: sc)
qed

lemma paginate_scan:
  "ordered storeElement_Less (tree_of h s) \<Longrightarrow> 0 < L \<Longrightarrow>
   concat (paginate h s p c L) = prefix_scan (tree_of h s) p c
   \<and> (\<forall>page\<in>set (paginate h s p c L). int (length page) \<le> L)"
proof (induction h s p c L rule: paginate.induct)
  case (1 h s p c L)
  let ?sc = "prefix_scan (tree_of h s) p c"
  have lp: "btreeStore_ListPrefix h s p c L = (take (nat L) ?sc, nat L < length ?sc)"
    using ListPrefix_scan [of L h s p c] "1.prems"(2) by simp
  show ?case
  proof (cases "nat L < length ?sc")
    case False
    then have "paginate h s p c L = [?sc]" by (subst paginate.simps) (simp add: lp)
    with False "1.prems"(2) show ?thesis by simp
  next
    case True
    let ?c' = "Key (last (take (nat L) ?sc)) @ [CHR 0x00]"
    have pg: "paginate h s p c L = take (nat L) ?sc # paginate h s p ?c' L"
      using True by (subst paginate.simps) (simp add: lp)
    have IH: "concat (paginate h s p ?c' L) = prefix_scan (tree_of h s) p ?c'
        \<and> (\<forall>page\<in>set (paginate h s p ?c' L). int (length page) \<le> L)"
      using "1.IH" [OF lp [symmetric] True] "1.prems" by simp
    have "prefix_scan (tree_of h s) p ?c' = drop (nat L) ?sc"
      using "1.prems"(1) _ True by (rule scan_continue) (use "1.prems"(2) in simp)
    with IH pg "1.prems"(2) show ?thesis by simp
  qed
qed

text \<open>
  C3. On a store whose tree is ordered and for a limit \<open>L > 0\<close>, the pages of the
  pagination loop, concatenated, are the result of \<open>ListPrefix(p, "", 0)\<close>, and every
  page has at most \<open>L\<close> elements. (The loop is a total function: it always ends.)
\<close>

theorem pagination_complete:
  assumes "ordered storeElement_Less (tree_of h s)" and "0 < L"
  shows "concat (paginate h s p [] L) = fst (btreeStore_ListPrefix h s p [] 0)
       \<and> (\<forall>page\<in>set (paginate h s p [] L). int (length page) \<le> L)"
  using paginate_scan [OF assms, of p "[]"] ListPrefix_scan [of 0 h s p "[]"] by simp

theorem pagination_complete_witness:
  "ordered storeElement_Less (tree_of pods_heap pods_store) \<and> (0::int) < 1
   \<and> paginate pods_heap pods_store ''/pods/ns1/'' [] 1 =
       [[\<lparr>Key = ''/pods/ns1/a'', Object = Some 1\<rparr>], [\<lparr>Key = ''/pods/ns1/b'', Object = Some 2\<rparr>]]
   \<and> concat (paginate pods_heap pods_store ''/pods/ns1/'' [] 1) =
       fst (btreeStore_ListPrefix pods_heap pods_store ''/pods/ns1/'' [] 0)"
proof -
  have l: "(0::int) < 1" by simp
  have "paginate pods_heap pods_store ''/pods/ns1/'' [] 1 =
       [[\<lparr>Key = ''/pods/ns1/a'', Object = Some 1\<rparr>], [\<lparr>Key = ''/pods/ns1/b'', Object = Some 2\<rparr>]]"
    by (simp add: paginate.simps ListPrefix_scan prefix_scan_def scan_start_def tree_of_def
        pods_heap_def pods_store_def pods_tree_def HasPrefix_def)
  with pagination_complete [OF pods_ordered l, of "''/pods/ns1/''"] pods_ordered l
  show ?thesis by blast
qed

section \<open>Invalid input\<close>

text \<open>
  C8. \<open>Add\<close>, \<open>Update\<close> and \<open>Delete\<close> of the facade, called with the nil
  interface or with an object that is not a \<open>*storeElement\<close>, return an error and leave
  the heap (so the tree of the store) and the facade (so every index) as they were.
\<close>

theorem invalid_input_atomic:
  "threadedStoreIndexer_Add h si ObjNil = (Some ErrNilObj, h, si)
   \<and> threadedStoreIndexer_Add h si ObjOther = (Some ErrNotStoreElement, h, si)
   \<and> threadedStoreIndexer_Update h si ObjNil = (Some ErrNilObj, h, si)
   \<and> threadedStoreIndexer_Update h si ObjOther = (Some ErrNotStoreElement, h, si)
   \<and> threadedStoreIndexer_Delete h si ObjNil = (Some ErrNotStoreElement, h, si)
   \<and> threadedStoreIndexer_Delete h si ObjOther = (Some ErrNotStoreElement, h, si)"
  by (simp add: threadedStoreIndexer_Add_def threadedStoreIndexer_Update_def
      threadedStoreIndexer_Delete_def addOrUpdate_def)

section \<open>Snapshots\<close>

text \<open>
  The mutations of a store, and a sequence of them applied to a store and to the facade.
\<close>

datatype 'o mutation =
    MAdd "'o obj"
  | MUpdate "'o obj"
  | MDelete "'o obj"
  | MReplace "'o obj list" string

fun store_mutate :: "'o heap \<Rightarrow> btreeStore \<Rightarrow> 'o mutation \<Rightarrow> 'o heap" where
  "store_mutate h s (MAdd obj) = snd (btreeStore_Add h s obj)"
| "store_mutate h s (MUpdate obj) = snd (btreeStore_Update h s obj)"
| "store_mutate h s (MDelete obj) = snd (btreeStore_Delete h s obj)"
| "store_mutate h s (MReplace objs rv) = snd (btreeStore_Replace h s objs rv)"

fun store_mutations :: "'o heap \<Rightarrow> btreeStore \<Rightarrow> 'o mutation list \<Rightarrow> 'o heap" where
  "store_mutations h s [] = h"
| "store_mutations h s (m # ms) = store_mutations (store_mutate h s m) s ms"

fun facade_mutate ::
  "'o heap \<times> 'o threadedStoreIndexer \<Rightarrow> 'o mutation \<Rightarrow> 'o heap \<times> 'o threadedStoreIndexer" where
  "facade_mutate (h, si) (MAdd obj) = snd (threadedStoreIndexer_Add h si obj)"
| "facade_mutate (h, si) (MUpdate obj) = snd (threadedStoreIndexer_Update h si obj)"
| "facade_mutate (h, si) (MDelete obj) = snd (threadedStoreIndexer_Delete h si obj)"
| "facade_mutate (h, si) (MReplace objs rv) = snd (threadedStoreIndexer_Replace h si objs rv)"

fun facade_mutations ::
  "'o heap \<times> 'o threadedStoreIndexer \<Rightarrow> 'o mutation list \<Rightarrow> 'o heap \<times> 'o threadedStoreIndexer" where
  "facade_mutations st [] = st"
| "facade_mutations st (m # ms) = facade_mutations (facade_mutate st m) ms"

text \<open>All the read operations of a store, at given arguments.\<close>

definition reads ::
  "'o heap \<Rightarrow> btreeStore \<Rightarrow> 'o obj \<Rightarrow> string \<Rightarrow> string \<Rightarrow> string \<Rightarrow> int \<Rightarrow>
   ('o storeElement option \<times> bool \<times> error option) \<times>
   ('o storeElement option \<times> bool \<times> error option) \<times>
   'o storeElement list \<times> string list \<times> ('o storeElement list \<times> bool) \<times> int" where
  "reads h s obj key prefix continueKey limit =
     (btreeStore_Get h s obj, btreeStore_GetByKey h s key, btreeStore_List h s,
      btreeStore_ListKeys h s, btreeStore_ListPrefix h s prefix continueKey limit,
      btreeStore_Count h s prefix continueKey)"

text \<open>What a call that writes only the tree at \<open>r\<close> leaves alone.\<close>

definition frame :: "ref \<Rightarrow> 'o heap \<Rightarrow> 'o heap \<Rightarrow> bool" where
  "frame r h h' = (next_ref h' = next_ref h \<and> (\<forall>r'. r' \<noteq> r \<longrightarrow> cells h' r' = cells h r'))"

lemma frame_refl: "frame r h h"
  by (simp add: frame_def)

lemma frame_trans: "frame r h h' \<Longrightarrow> frame r h' h'' \<Longrightarrow> frame r h h''"
  by (simp add: frame_def)

lemma frame_set_tree: "frame (tree s) h (set_tree h s t)"
  by (simp add: frame_def set_tree_def)

lemma frame_addOrUpdateElem: "frame (tree s) h (snd (addOrUpdateElem h s e))"
  by (simp add: addOrUpdateElem_def frame_set_tree split: prod.split)

lemma frame_deleteElem: "frame (tree s) h (snd (deleteElem h s e))"
  by (simp add: deleteElem_def frame_set_tree split: prod.split)

lemma frame_Replace_loop: "frame (tree s) h (snd (Replace_loop h s objs))"
proof (induction objs arbitrary: h)
  case Nil
  show ?case by (simp add: frame_refl)
next
  case (Cons obj objs)
  show ?case
  proof (cases obj)
    case (ObjElem e)
    from frame_addOrUpdateElem Cons.IH have
      "frame (tree s) h (snd (Replace_loop (snd (addOrUpdateElem h s e)) s objs))"
      by (rule frame_trans)
    with ObjElem show ?thesis by simp
  qed (simp_all add: frame_refl)
qed

lemma frame_store_mutate: "frame (tree s) h (store_mutate h s m)"
proof (cases m)
  case (MAdd obj)
  then show ?thesis
    by (cases obj) (simp_all add: btreeStore_Add_def frame_refl frame_addOrUpdateElem)
next
  case (MUpdate obj)
  then show ?thesis
    by (cases obj) (simp_all add: btreeStore_Update_def frame_refl frame_addOrUpdateElem)
next
  case (MDelete obj)
  then show ?thesis
    by (cases obj) (simp_all add: btreeStore_Delete_def frame_refl frame_deleteElem)
next
  case (MReplace objs rv)
  have "frame (tree s) h (snd (Replace_loop (set_tree h s []) s objs))"
    using frame_set_tree frame_Replace_loop by (rule frame_trans)
  with MReplace show ?thesis by (simp add: btreeStore_Replace_def)
qed

lemma frame_store_mutations: "frame (tree s) h (store_mutations h s ms)"
proof (induction ms arbitrary: h)
  case Nil
  show ?case by (simp add: frame_refl)
next
  case (Cons m ms)
  from frame_store_mutate Cons.IH show ?case
    unfolding store_mutations.simps by (rule frame_trans)
qed


lemma addOrUpdate_heap:
  "fst (snd (addOrUpdate h si obj)) =
     (case obj of ObjElem e \<Rightarrow> snd (addOrUpdateElem h (store si) e) | _ \<Rightarrow> h)"
  by (simp add: addOrUpdate_def split: obj.split prod.split)

lemma addOrUpdate_store: "store (snd (snd (addOrUpdate h si obj))) = store si"
  by (simp add: addOrUpdate_def split: obj.split prod.split)

lemma Delete_heap:
  "fst (snd (threadedStoreIndexer_Delete h si obj)) =
     (case obj of ObjElem e \<Rightarrow> snd (deleteElem h (store si) e) | _ \<Rightarrow> h)"
  by (simp add: threadedStoreIndexer_Delete_def split: obj.split prod.split option.split)

lemma Delete_store: "store (snd (snd (threadedStoreIndexer_Delete h si obj))) = store si"
  by (simp add: threadedStoreIndexer_Delete_def split: obj.split prod.split option.split)

lemma Replace_heap:
  "fst (snd (threadedStoreIndexer_Replace h si objs rv)) =
     snd (btreeStore_Replace h (store si) objs rv)"
  by (simp add: threadedStoreIndexer_Replace_def split: prod.split option.split)

lemma Replace_store: "store (snd (snd (threadedStoreIndexer_Replace h si objs rv))) = store si"
  by (simp add: threadedStoreIndexer_Replace_def split: prod.split option.split)

lemma facade_mutate_heap:
  "fst (facade_mutate (h, si) m) = store_mutate h (store si) m"
proof (cases m)
  case (MAdd obj)
  then show ?thesis
    by (cases obj)
      (simp_all add: threadedStoreIndexer_Add_def addOrUpdate_heap btreeStore_Add_def)
next
  case (MUpdate obj)
  then show ?thesis
    by (cases obj)
      (simp_all add: threadedStoreIndexer_Update_def addOrUpdate_heap btreeStore_Update_def)
next
  case (MDelete obj)
  then show ?thesis
    by (cases obj) (simp_all add: Delete_heap btreeStore_Delete_def deleteElem_def)
next
  case (MReplace objs rv)
  then show ?thesis by (simp add: Replace_heap)
qed

lemma facade_mutate_store: "store (snd (facade_mutate (h, si) m)) = store si"
  by (cases m)
    (simp_all add: threadedStoreIndexer_Add_def threadedStoreIndexer_Update_def
      addOrUpdate_store Delete_store Replace_store)

lemma facade_mutations_heap:
  "fst (facade_mutations (h, si) ms) = store_mutations h (store si) ms"
proof (induction ms arbitrary: h si)
  case Nil
  show ?case by simp
next
  case (Cons m ms)
  obtain h' si' where st: "facade_mutate (h, si) m = (h', si')" by (cases "facade_mutate (h, si) m")
  then have "h' = store_mutate h (store si) m" "store si' = store si"
    using facade_mutate_heap [of h si m] facade_mutate_store [of h si m] by simp_all
  with Cons.IH [of h' si'] st show ?case by simp
qed

lemma reads_tree:
  "tree_of h' s' = tree_of h s \<Longrightarrow> reads h' s' obj key p c L = reads h s obj key p c L"
  by (simp add: reads_def btreeStore_Get_def btreeStore_GetByKey_def getByKey_def
      btreeStore_List_def btreeStore_ListKeys_def btreeStore_ListPrefix_def btreeStore_Count_def
      Let_def split: obj.split)

lemma frame_reads:
  "frame r h h' \<Longrightarrow> tree s' \<noteq> r \<Longrightarrow> reads h' s' obj key p c L = reads h s' obj key p c L"
  by (rule reads_tree) (simp add: frame_def tree_of_def)

lemma Clone_fresh:
  assumes "allocated h s"
  shows "tree (snd (btreeStore_Clone h s)) \<noteq> tree s"
    and "tree_of (fst (btreeStore_Clone h s)) (snd (btreeStore_Clone h s)) = tree_of h s"
  using assms by (simp_all add: btreeStore_Clone_def btree_Clone_def allocated_def tree_of_def)

lemma Clone_isolated:
  assumes "allocated h s"
  shows "reads (fst (btreeStore_Clone h s)) (snd (btreeStore_Clone h s)) obj key p k L =
           reads h s obj key p k L
       \<and> reads (store_mutations (fst (btreeStore_Clone h s)) s ms) (snd (btreeStore_Clone h s))
           obj key p k L =
           reads (fst (btreeStore_Clone h s)) (snd (btreeStore_Clone h s)) obj key p k L"
proof
  show "reads (fst (btreeStore_Clone h s)) (snd (btreeStore_Clone h s)) obj key p k L =
      reads h s obj key p k L"
    using Clone_fresh(2) [OF assms] by (rule reads_tree)
  show "reads (store_mutations (fst (btreeStore_Clone h s)) s ms) (snd (btreeStore_Clone h s))
      obj key p k L =
      reads (fst (btreeStore_Clone h s)) (snd (btreeStore_Clone h s)) obj key p k L"
    using frame_store_mutations Clone_fresh(1) [OF assms] by (rule frame_reads)
qed

text \<open>
  C1. Let \<open>s\<close> be an allocated store, the store of the facade \<open>si\<close>. Right after
  \<open>Clone\<close> the clone reads as \<open>s\<close> does, and after any sequence of mutations of
  \<open>s\<close>, applied to the store or through the facade, every read of the clone (\<open>Get\<close>,
  \<open>GetByKey\<close>, \<open>List\<close>, \<open>ListKeys\<close>, \<open>ListPrefix\<close>, \<open>Count\<close>, at any
  arguments) returns what it returned right after the clone. When \<open>rv\<close> is not yet
  cached, \<open>Set\<close> caches at \<open>rv\<close> such a clone of the facade's store, or of the store
  it is given: reads of the cached snapshot are the reads of the store at the time of
  \<open>Set\<close>, whatever mutations follow.
\<close>

theorem snapshot_isolation:
  assumes "allocated h s" and "store si = s" and "cache c rv = None"
  shows "(case btreeStore_Clone h s of (h1, s1) \<Rightarrow>
            reads h1 s1 obj key p k L = reads h s obj key p k L
          \<and> reads (store_mutations h1 s ms) s1 obj key p k L = reads h1 s1 obj key p k L
          \<and> reads (fst (facade_mutations (h1, si) ms)) s1 obj key p k L =
              reads h1 s1 obj key p k L)
       \<and> (case continueCache_Set h c rv (Threaded si) of (h2, c2) \<Rightarrow>
            (case cache c2 rv of
               None \<Rightarrow> False
             | Some s2 \<Rightarrow>
                 reads h2 s2 obj key p k L = reads h s obj key p k L
               \<and> reads (fst (facade_mutations (h2, si) ms)) s2 obj key p k L =
                   reads h2 s2 obj key p k L))
       \<and> (case continueCache_Set h c rv (Store s) of (h3, c3) \<Rightarrow>
            (case cache c3 rv of
               None \<Rightarrow> False
             | Some s3 \<Rightarrow>
                 reads h3 s3 obj key p k L = reads h s obj key p k L
               \<and> reads (store_mutations h3 s ms) s3 obj key p k L =
                   reads h3 s3 obj key p k L))"
proof -
  obtain h1 s1 where cl: "btreeStore_Clone h s = (h1, s1)" by (cases "btreeStore_Clone h s")
  from Clone_isolated [OF assms(1), of obj key p k L ms] cl
  have iso: "reads h1 s1 obj key p k L = reads h s obj key p k L"
    "reads (store_mutations h1 s ms) s1 obj key p k L = reads h1 s1 obj key p k L"
    by simp_all
  have fac: "fst (facade_mutations (h1, si) ms) = store_mutations h1 s ms"
    using assms(2) by (simp add: facade_mutations_heap)
  have set_si: "continueCache_Set h c rv (Threaded si) =
      (h1, c\<lparr>revisions := snd (ReplaceOrInsert rev_Less rv (revisions c)),
             cache := (cache c)(rv \<mapsto> s1)\<rparr>)"
    using assms(2,3) cl
    by (simp add: continueCache_Set_def orderedStore_Clone_def threadedStoreIndexer_Clone_def)
  have set_s: "continueCache_Set h c rv (Store s) =
      (h1, c\<lparr>revisions := snd (ReplaceOrInsert rev_Less rv (revisions c)),
             cache := (cache c)(rv \<mapsto> s1)\<rparr>)"
    using assms(3) cl by (simp add: continueCache_Set_def orderedStore_Clone_def)
  show ?thesis by (simp add: cl set_si set_s iso fac)
qed


definition pods_facade :: "nat threadedStoreIndexer" where
  "pods_facade = \<lparr>store = pods_store, indexer = newIndexer []\<rparr>"

lemma List_tree: "btreeStore_List h s = tree_of h s"
proof -
  have "iterate t (\<lambda>i items. (True, items @ [i])) acc = acc @ t" for t acc :: "'a storeElement list"
    by (induction t arbitrary: acc) simp_all
  then show ?thesis by (simp add: btreeStore_List_def Ascend_def)
qed



lemma pods_clone:
  "btreeStore_Clone pods_heap pods_store =
     (\<lparr>next_ref = 2, cells = (\<lambda>_. [])(0 := pods_tree, 1 := pods_tree)\<rparr>, \<lparr>tree = 1\<rparr>)"
  by (simp add: btreeStore_Clone_def btree_Clone_def pods_heap_def pods_store_def)

theorem snapshot_isolation_witness:
  "allocated pods_heap pods_store \<and> store pods_facade = pods_store
   \<and> cache newContinueCache 7 = None
   \<and> (case btreeStore_Clone pods_heap pods_store of (h1, s1) \<Rightarrow>
        btreeStore_List
          (fst (facade_mutations (h1, pods_facade)
             [MDelete (ObjElem \<lparr>Key = ''/pods/ns1/a'', Object = None\<rparr>)])) s1 = pods_tree
      \<and> btreeStore_List
          (fst (facade_mutations (h1, pods_facade)
             [MDelete (ObjElem \<lparr>Key = ''/pods/ns1/a'', Object = None\<rparr>)])) pods_store =
          tl pods_tree)"
proof -
  let ?ms = "[MDelete (ObjElem \<lparr>Key = ''/pods/ns1/a'', Object = (None :: nat option)\<rparr>)]"
  let ?h1 = "\<lparr>next_ref = 2, cells = (\<lambda>_. [])(0 := pods_tree, 1 := pods_tree)\<rparr>"
  let ?s1 = "\<lparr>tree = 1\<rparr>"
  have a: "allocated pods_heap pods_store"
    by (simp add: allocated_def pods_heap_def pods_store_def)
  have b: "store pods_facade = pods_store" by (simp add: pods_facade_def)
  have c: "cache newContinueCache 7 = None" by (simp add: newContinueCache_def)
  from snapshot_isolation [OF a b c, of ObjNil "[]" "[]" "[]" 0 ?ms]
  have "reads (fst (facade_mutations (?h1, pods_facade) ?ms)) ?s1 ObjNil [] [] [] 0 =
        reads ?h1 ?s1 ObjNil [] [] [] 0"
    unfolding pods_clone by simp
  then have "btreeStore_List (fst (facade_mutations (?h1, pods_facade) ?ms)) ?s1 =
        btreeStore_List ?h1 ?s1"
    unfolding reads_def by simp
  also have "\<dots> = pods_tree"
    by (simp add: List_tree tree_of_def)
  finally have snap:
    "btreeStore_List (fst (facade_mutations (?h1, pods_facade) ?ms)) ?s1 = pods_tree" .
  have "fst (facade_mutations (?h1, pods_facade) ?ms) = store_mutations ?h1 pods_store ?ms"
    by (simp only: facade_mutations_heap b)
  also have "\<dots> = \<lparr>next_ref = 2, cells = (\<lambda>_. [])(1 := pods_tree, 0 := tl pods_tree)\<rparr>"
    by (simp add: btreeStore_Delete_def deleteElem_def set_tree_def tree_of_def
        pods_store_def pods_tree_def storeElement_Less_def)
  finally have "btreeStore_List (fst (facade_mutations (?h1, pods_facade) ?ms)) pods_store =
      tl pods_tree"
    by (simp add: List_tree tree_of_def pods_store_def)
  with a b c snap show ?thesis unfolding pods_clone by simp
qed

end
